theory Spec2Isabelle
  imports
    Main
    "HOL-Library.Word"
    "HOL-Library.Multiset"
    "HOL-Library.Char_ord"
    "HOL-Library.List_Lexorder"
begin

unbundle bit_operations_syntax

section \<open>Data model of yegonesh (main.go)\<close>

text \<open>
  Go strings are byte sequences: \<^typ>\<open>string\<close>. With \<open>Char_ord\<close> and
  \<open>List_Lexorder\<close> the order on \<^typ>\<open>string\<close> is the byte-wise lexicographic
  order of Go's \<open><\<close> on strings.

  \<open>type Command struct { Name string; Calls uint64 }\<close>
\<close>

record Command =
  Name :: string
  Calls :: "64 word"

text \<open>
  A channel that its producer closes is modelled by the finite list of the values sent on it,
  in the order they were sent.
\<close>

section \<open>multiplexMenuStreams\<close>

text \<open>
  The first loop of the goroutine: \<open>for cmd := range history { seen[cmd] = true; out <- cmd }\<close>.
  The state is the map \<open>seen\<close> and the values sent on \<open>out\<close> so far.
\<close>

fun drain_history ::
  "(string \<rightharpoonup> bool) \<Rightarrow> string list \<Rightarrow> string list \<Rightarrow> (string \<rightharpoonup> bool) \<times> string list" where
  "drain_history seen out [] = (seen, out)"
| "drain_history seen out (cmd # rest) = drain_history (seen(cmd \<mapsto> True)) (out @ [cmd]) rest"

text \<open>
  The second loop: \<open>for cmd := range commands { if _, ok := seen[cmd]; !ok { out <- cmd } }\<close>.
\<close>

fun drain_commands :: "(string \<rightharpoonup> bool) \<Rightarrow> string list \<Rightarrow> string list \<Rightarrow> string list" where
  "drain_commands seen out [] = out"
| "drain_commands seen out (cmd # rest) =
     (case seen cmd of
        None \<Rightarrow> drain_commands seen (out @ [cmd]) rest
      | Some _ \<Rightarrow> drain_commands seen out rest)"

definition multiplexMenuStreams :: "string list \<Rightarrow> string list \<Rightarrow> string list" where
  "multiplexMenuStreams history commands =
     (case drain_history Map.empty [] history of
        (seen, out) \<Rightarrow> drain_commands seen out commands)"

section \<open>Library functions used by the history store\<close>

text \<open>
  The run-time failures of the program. \<open>check(err)\<close> panics with the error it is given;
  indexing past the end of a slice and dereferencing a nil pointer panic in the Go runtime.
\<close>

datatype num_error = ErrSyntax | ErrRange

datatype panic =
    NumError num_error
  | IndexOutOfRange nat nat
  | NilDereference
  | PathError
  | LookPathError

text \<open>
  \<open>strings.Split(s, sep)\<close> for a one-byte separator: the pieces between the separators;
  \<open>n\<close> separators give \<open>n + 1\<close> pieces, the empty string gives one empty piece.
\<close>

fun strings_Split :: "string \<Rightarrow> char \<Rightarrow> string list" where
  "strings_Split [] sep = [[]]"
| "strings_Split (x # xs) sep =
     (if x = sep then [] # strings_Split xs sep
      else (case strings_Split xs sep of
              [] \<Rightarrow> [[x]]
            | p # ps \<Rightarrow> (x # p) # ps))"

text \<open>
  \<open>strings.SplitN(s, sep, 2)\<close> for a one-byte separator: at most two pieces, cut at the first
  separator; the second piece is the unsplit rest.
\<close>

definition strings_SplitN2 :: "string \<Rightarrow> char \<Rightarrow> string list" where
  "strings_SplitN2 s sep =
     (if sep \<in> set s
      then [takeWhile (\<lambda>x. x \<noteq> sep) s, tl (dropWhile (\<lambda>x. x \<noteq> sep) s)]
      else [s])"

text \<open>
  \<open>strings.TrimSpace\<close> removes leading and trailing white space as defined by Unicode
  (\<open>unicode.IsSpace\<close>). On the bytes of a string these are the six ASCII space bytes and the
  UTF-8 encodings of U+0085, U+00A0, U+1680, U+2000 .. U+200A, U+2028, U+2029, U+202F, U+205F
  and U+3000.
\<close>

definition asciiSpace :: "char \<Rightarrow> bool" where
  "asciiSpace c = (c \<in> set [CHR 0x09, CHR 0x0A, CHR 0x0B, CHR 0x0C, CHR 0x0D, CHR 0x20])"

definition unicode_spaces :: "string list" where
  "unicode_spaces =
     [[CHR 0xC2, CHR 0x85], [CHR 0xC2, CHR 0xA0], [CHR 0xE1, CHR 0x9A, CHR 0x80]]
     @ map (\<lambda>b. [CHR 0xE2, CHR 0x80, b])
         [CHR 0x80, CHR 0x81, CHR 0x82, CHR 0x83, CHR 0x84, CHR 0x85, CHR 0x86, CHR 0x87,
          CHR 0x88, CHR 0x89, CHR 0x8A, CHR 0xA8, CHR 0xA9, CHR 0xAF]
     @ [[CHR 0xE2, CHR 0x81, CHR 0x9F], [CHR 0xE3, CHR 0x80, CHR 0x80]]"

text \<open>The number of bytes of the white-space rune a string starts with, 0 when there is none.\<close>

definition space_width :: "string list \<Rightarrow> string \<Rightarrow> nat" where
  "space_width encodings s =
     (case s of
        [] \<Rightarrow> 0
      | c # _ \<Rightarrow>
          if asciiSpace c then 1
          else (case find (\<lambda>e. take (length e) s = e) encodings of
                  None \<Rightarrow> 0
                | Some e \<Rightarrow> length e))"

function trim_left :: "string list \<Rightarrow> string \<Rightarrow> string" where
  "trim_left encodings s =
     (if space_width encodings s = 0 \<or> s = [] then s
      else trim_left encodings (drop (space_width encodings s) s))"
  by pat_completeness auto
termination
  by (relation "measure (\<lambda>(encodings, s). length s)") auto

text \<open>
  Trailing white space is found by decoding the last rune; on the reversed string that is a
  leading match of a reversed encoding.
\<close>

definition strings_TrimSpace :: "string \<Rightarrow> string" where
  "strings_TrimSpace s =
     rev (trim_left (map rev unicode_spaces) (rev (trim_left unicode_spaces s)))"

text \<open>
  \<open>strconv.ParseInt(s, 10, 64)\<close>: an optional sign, then one or more decimal digits; the value
  must fit into an \<open>int64\<close>. The digits are read from left to right by \<open>ParseUint\<close>, which
  stops at the first byte that is not a digit (\<open>ErrSyntax\<close>) or at the first digit with which
  the value no longer fits into a \<open>uint64\<close> (\<open>ErrRange\<close>), whichever comes first.
\<close>

definition is_digit :: "char \<Rightarrow> bool" where
  "is_digit c = (c \<in> set ''0123456789'')"

definition digit_val :: "char \<Rightarrow> nat" where
  "digit_val c = of_char c - 48"

fun parse_uint :: "nat \<Rightarrow> string \<Rightarrow> num_error + nat" where
  "parse_uint n [] = Inr n"
| "parse_uint n (c # cs) =
     (if \<not> is_digit c then Inl ErrSyntax
      else if 2 ^ 64 \<le> 10 * n + digit_val c then Inl ErrRange
      else parse_uint (10 * n + digit_val c) cs)"

definition strconv_ParseInt :: "string \<Rightarrow> num_error + int" where
  "strconv_ParseInt s =
     (case (case s of
              [] \<Rightarrow> (False, [])
            | c # r \<Rightarrow> if c = CHR ''-'' then (True, r)
                       else if c = CHR ''+'' then (False, r)
                       else (False, s)) of
        (neg, ds) \<Rightarrow>
          if ds = [] then Inl ErrSyntax
          else (case parse_uint 0 ds of
                  Inl e \<Rightarrow> Inl e
                | Inr n \<Rightarrow>
                    if neg then (if 2 ^ 63 < n then Inl ErrRange else Inr (- int n))
                    else (if 2 ^ 63 \<le> n then Inl ErrRange else Inr (int n))))"

text \<open>
  The verb \<open>%d\<close> of \<open>fmt.Fprintf\<close> on a \<open>uint64\<close>: its decimal digits, no sign, no padding.
\<close>

function decimal :: "nat \<Rightarrow> string" where
  "decimal n =
     (if n < 10 then [''0123456789'' ! n]
      else decimal (n div 10) @ [''0123456789'' ! (n mod 10)])"
  by pat_completeness auto
termination
  by (relation "measure (\<lambda>n. n)") auto

text \<open>
  \<open>bufio.Scanner\<close> with the default split function \<open>ScanLines\<close>: the input is cut at each
  newline; a last line without newline is delivered when it is not empty; one trailing carriage
  return is dropped from each line. A line that does not fit the scanner's buffer of
  \<open>MaxScanTokenSize\<close> bytes together with its newline ends the scan (\<open>Scan\<close> returns false;
  the program does not look at \<open>scanner.Err()\<close>).
\<close>

definition MaxScanTokenSize :: nat where
  "MaxScanTokenSize = 64 * 1024"

definition raw_lines :: "string \<Rightarrow> string list" where
  "raw_lines content =
     (let pieces = strings_Split content (CHR 0x0A)
      in if last pieces = [] then butlast pieces else pieces)"

definition dropCR :: "string \<Rightarrow> string" where
  "dropCR l = (if l \<noteq> [] \<and> last l = CHR 0x0D then butlast l else l)"

definition scanner_lines :: "string \<Rightarrow> string list" where
  "scanner_lines content =
     map dropCR (takeWhile (\<lambda>l. length l < MaxScanTokenSize) (raw_lines content))"

text \<open>
  \<open>sort.Sort(data)\<close> "sorts data in ascending order as determined by the Less method. ...
  The sort is not guaranteed to be stable." What the program may rely on is therefore a
  relation between the slice before and after the call: the result is a rearrangement of the
  input in which no later element is \<open>Less\<close> than an earlier one.
\<close>

definition sort_Sort :: "('a \<Rightarrow> 'a \<Rightarrow> bool) \<Rightarrow> 'a list \<Rightarrow> 'a list \<Rightarrow> bool" where
  "sort_Sort lt xs ys = (mset ys = mset xs \<and> sorted_wrt (\<lambda>a b. \<not> lt b a) ys)"

text \<open>\<open>sort.Reverse\<close>: \<open>Less(i, j)\<close> of the reversed order is \<open>Less(j, i)\<close> of the given one.\<close>

definition sort_Reverse :: "('a \<Rightarrow> 'a \<Rightarrow> bool) \<Rightarrow> 'a \<Rightarrow> 'a \<Rightarrow> bool" where
  "sort_Reverse lt a b = lt b a"

text \<open>
  The files the program touches: the content of every path that \<open>os.Open\<close> can open, and
  whether \<open>os.Create\<close> succeeds on a path. \<open>os.Create\<close> truncates the file.
\<close>

record filesystem =
  files :: "string \<rightharpoonup> string"
  creatable :: "string \<Rightarrow> bool"

definition os_Open :: "filesystem \<Rightarrow> string \<Rightarrow> string option" where
  "os_Open fs path = files fs path"

definition os_Create :: "filesystem \<Rightarrow> string \<Rightarrow> filesystem option" where
  "os_Create fs path =
     (if creatable fs path then Some (fs\<lparr>files := (files fs)(path \<mapsto> [])\<rparr>) else None)"

section \<open>The history store: readHistory and writeHistory\<close>

text \<open>\<open>func (s ByScore) Less(i, j int) bool { return s.Commands[i].Calls < s.Commands[j].Calls }\<close>\<close>

definition ByScore_Less :: "Command \<Rightarrow> Command \<Rightarrow> bool" where
  "ByScore_Less a b = (Calls a < Calls b)"

text \<open>
  The body of the scan loop of \<open>readHistory\<close> on one line: trim, split at tabs, parse the
  first field, \<open>check\<close> the error, then build the command from the second field. \<open>s[0]\<close> and
  \<open>s[1]\<close> are index expressions and panic when the field is missing.
\<close>

definition parse_line :: "string \<Rightarrow> panic + Command" where
  "parse_line text =
     (let line = strings_TrimSpace text;
          s = strings_Split line (CHR 0x09)
      in case s of
           [] \<Rightarrow> Inl (IndexOutOfRange 0 0)
         | s0 # rest \<Rightarrow>
             (case strconv_ParseInt s0 of
                Inl e \<Rightarrow> Inl (NumError e)
              | Inr calls \<Rightarrow>
                  (case rest of
                     [] \<Rightarrow> Inl (IndexOutOfRange 1 1)
                   | s1 # _ \<Rightarrow> Inr \<lparr>Name = s1, Calls = word_of_int calls\<rparr>)))"

text \<open>\<open>for scanner.Scan() { ...; history = append(history, &Command{...}) }\<close>\<close>

fun read_loop :: "Command list \<Rightarrow> string list \<Rightarrow> panic + Command list" where
  "read_loop history [] = Inr history"
| "read_loop history (text # rest) =
     (case parse_line text of
        Inl e \<Rightarrow> Inl e
      | Inr command \<Rightarrow> read_loop (history @ [command]) rest)"

text \<open>
  \<open>readHistory\<close>. Every command of the result is a freshly allocated object, so the result is
  given by value. Because of \<open>sort.Sort\<close> the function is a relation between the file system
  and the outcome: \<open>readHistory fs path r\<close> holds when \<open>r\<close> is a possible outcome, a panic
  (\<open>Inl\<close>) or the returned slice (\<open>Inr\<close>, a nil slice being the empty list).
\<close>

definition readHistory :: "filesystem \<Rightarrow> string \<Rightarrow> panic + Command list \<Rightarrow> bool" where
  "readHistory fs path r =
     (case os_Open fs path of
        None \<Rightarrow> r = Inr []
      | Some content \<Rightarrow>
          (case read_loop [] (scanner_lines content) of
             Inl e \<Rightarrow> r = Inl e
           | Inr history \<Rightarrow>
               (case r of
                  Inl _ \<Rightarrow> False
                | Inr result \<Rightarrow> sort_Sort (sort_Reverse ByScore_Less) history result)))"

text \<open>
  \<open>Commands\<close> is \<open>[]*Command\<close>: a list of pointers into a store of commands. An address
  outside the store's domain is a nil pointer.
\<close>

type_synonym heap = "nat \<rightharpoonup> Command"

text \<open>The closure \<open>write\<close>: \<open>fmt.Fprintf(f, "%d\t%s\n", command.Calls, command.Name)\<close>.\<close>

definition format_line :: "Command \<Rightarrow> string" where
  "format_line command =
     decimal (unat (Calls command)) @ [CHR 0x09] @ Name command @ [CHR 0x0A]"

text \<open>
  The loop of \<open>writeHistory\<close> over the pointers. The state is the store, the bytes written to
  the file so far and the variable \<open>lastCommand\<close>; a nil pointer stops the loop with a panic,
  leaving the state as it is at that moment.
\<close>

fun write_loop ::
  "heap \<Rightarrow> string \<Rightarrow> string \<Rightarrow> nat list \<Rightarrow> panic option \<times> heap \<times> string \<times> string" where
  "write_loop h out lastCommand [] = (None, h, out, lastCommand)"
| "write_loop h out lastCommand (p # ps) =
     (case h p of
        None \<Rightarrow> (Some NilDereference, h, out, lastCommand)
      | Some command \<Rightarrow>
          if Name command = lastCommand
          then (let command' = command\<lparr>Calls := Calls command + 1\<rparr>
                in write_loop (h(p \<mapsto> command')) (out @ format_line command') [] ps)
          else write_loop h (out @ format_line command) lastCommand ps)"

text \<open>
  \<open>writeHistory\<close> returns nothing; its effects are on the store and on the file system, which
  are returned together with the panic, if any.
\<close>

definition writeHistory ::
  "filesystem \<Rightarrow> heap \<Rightarrow> string \<Rightarrow> nat list \<Rightarrow> string \<Rightarrow> panic option \<times> heap \<times> filesystem" where
  "writeHistory fs h path commands lastCommand =
     (case os_Create fs path of
        None \<Rightarrow> (Some PathError, h, fs)
      | Some fs0 \<Rightarrow>
          (case write_loop h [] lastCommand commands of
             (Some e, h', out, last') \<Rightarrow> (Some e, h', fs0\<lparr>files := (files fs0)(path \<mapsto> out)\<rparr>)
           | (None, h', out, last') \<Rightarrow>
               (let out' = (if last' \<noteq> []
                            then out @ format_line \<lparr>Name = last', Calls = 1\<rparr>
                            else out)
                in (None, h', fs0\<lparr>files := (files fs0)(path \<mapsto> out')\<rparr>))))"

declare decimal.simps [simp del]

declare trim_left.simps [simp del]

text \<open>
  What the description of \<open>write\<close> says, in its own words: the first command whose name
  equals the launched name is the one that is incremented; the file holds one line per
  command, in the order of the slice, each with the value the command has after that
  increment; when no command matched, a record with one call is appended.
\<close>

definition first_match :: "heap \<Rightarrow> string \<Rightarrow> nat list \<Rightarrow> nat option" where
  "first_match h name commands =
     find (\<lambda>p. case h p of None \<Rightarrow> False | Some c \<Rightarrow> Name c = name) commands"

definition increment :: "Command \<Rightarrow> Command" where
  "increment c = c\<lparr>Calls := Calls c + 1\<rparr>"

definition claimed_store :: "heap \<Rightarrow> nat list \<Rightarrow> string \<Rightarrow> heap" where
  "claimed_store h commands lastLaunched =
     (case first_match h lastLaunched commands of
        None \<Rightarrow> h
      | Some q \<Rightarrow> h(q := map_option increment (h q)))"


text \<open>
  What the description of \<open>read\<close> says, in its own words. A line "parses as \<open>Calls\tName\<close>"
  when, trimmed and cut at the tabs, its first field is an integer and a second field
  exists; the claimed result is the parsed commands by descending count, commands with equal
  counts in the order of the file.
\<close>

definition line_fields :: "string \<Rightarrow> string list" where
  "line_fields text = strings_Split (strings_TrimSpace text) (CHR 0x09)"

definition count_parses :: "string \<Rightarrow> bool" where
  "count_parses text =
     (case line_fields text of
        [] \<Rightarrow> False
      | s0 # _ \<Rightarrow> (case strconv_ParseInt s0 of Inl _ \<Rightarrow> False | Inr _ \<Rightarrow> True))"

definition parses_as_record :: "string \<Rightarrow> bool" where
  "parses_as_record text = (count_parses text \<and> 2 \<le> length (line_fields text))"

definition claimed_order :: "Command list \<Rightarrow> Command list" where
  "claimed_order parsed = rev (sort_key Calls (rev parsed))"

section \<open>fetchExecutables and scanPath\<close>

text \<open>
  A directory entry as \<open>os.FileInfo\<close> shows it to the program: \<open>Name()\<close> and \<open>Mode()\<close>
  (\<open>os.FileMode\<close> is a \<open>uint32\<close>). The directories are a partial map from paths to their
  entries; a path outside the domain cannot be read as a directory.
\<close>

record FileInfo =
  FileName :: string
  Mode :: "32 word"

type_synonym tree = "string \<rightharpoonup> FileInfo list"

text \<open>
  \<open>ioutil.ReadDir\<close> returns the entries "sorted by filename", and \<open>nil\<close> with an error when the
  directory cannot be read; \<open>fetchExecutables\<close> drops the error.
\<close>

definition ioutil_ReadDir :: "tree \<Rightarrow> string \<Rightarrow> FileInfo list" where
  "ioutil_ReadDir t dir = (case t dir of None \<Rightarrow> [] | Some entries \<Rightarrow> sort_key FileName entries)"

text \<open>
  The loop of the goroutine of \<open>fetchExecutables\<close>: \<open>if f.Mode()&0111 != 0 { out <- f.Name() }\<close>.
  The octal constant \<open>0111\<close> is \<open>0x49\<close>.
\<close>

fun send_executables :: "string list \<Rightarrow> FileInfo list \<Rightarrow> string list" where
  "send_executables out [] = out"
| "send_executables out (f # rest) =
     (if Mode f AND 0x49 \<noteq> 0
      then send_executables (out @ [FileName f]) rest
      else send_executables out rest)"

definition fetchExecutables :: "tree \<Rightarrow> string \<Rightarrow> string list" where
  "fetchExecutables t dir = send_executables [] (ioutil_ReadDir t dir)"

text \<open>
  \<open>scanPath\<close> starts one goroutine per directory, and all of them execute
  \<open>commands = append(commands, item)\<close> on the one variable \<open>commands\<close>, with nothing that
  orders these statements between goroutines. The statement reads the slice header
  (pointer, length, capacity) of \<open>commands\<close>, then writes the item behind the last element,
  into the same array when the capacity allows it and into a larger copy otherwise, and
  stores the new header. The model interleaves the goroutines at these two points: a worker
  that has an item either has not yet read the header or holds the header it read. The
  program can interleave more finely still (the three words of a header are stored one by
  one), so every run of the model is a run of the program, and not the other way round.
\<close>

record slice =
  sl_array :: nat
  sl_len :: nat
  sl_cap :: nat

record worker =
  pending :: "string list"
  loaded :: "slice option"

text \<open>The arrays allocated so far, the variable \<open>commands\<close> and the workers.\<close>

record scan =
  arrays :: "string list list"
  shared :: slice
  workers :: "worker list"

text \<open>
  One step of worker \<open>i\<close>; \<open>None\<close> when there is no such worker or it has finished. The
  capacity that \<open>append\<close> chooses for a full slice is left to the Go runtime: \<open>grow\<close>.
\<close>

definition step :: "(nat \<Rightarrow> nat) \<Rightarrow> nat \<Rightarrow> scan \<Rightarrow> scan option" where
  "step grow i s =
     (if length (workers s) \<le> i then None
      else (case pending (workers s ! i) of
              [] \<Rightarrow> None
            | item # rest \<Rightarrow>
                (case loaded (workers s ! i) of
                   None \<Rightarrow>
                     Some (s\<lparr>workers := (workers s)[i := \<lparr>pending = item # rest,
                                                          loaded = Some (shared s)\<rparr>]\<rparr>)
                 | Some h \<Rightarrow>
                     if sl_len h < sl_cap h
                     then Some (s\<lparr>arrays := (arrays s)[sl_array h :=
                                               (arrays s ! sl_array h)[sl_len h := item]],
                                  shared := h\<lparr>sl_len := sl_len h + 1\<rparr>,
                                  workers := (workers s)[i := \<lparr>pending = rest, loaded = None\<rparr>]\<rparr>)
                     else Some (s\<lparr>arrays := arrays s @
                                    [take (sl_len h) (arrays s ! sl_array h) @ [item]
                                     @ replicate (grow (sl_cap h) - sl_len h - 1) []],
                                  shared := \<lparr>sl_array = length (arrays s),
                                               sl_len = sl_len h + 1,
                                               sl_cap = grow (sl_cap h)\<rparr>,
                                  workers := (workers s)[i := \<lparr>pending = rest, loaded = None\<rparr>]\<rparr>))))"

text \<open>A schedule names the worker that takes the next step.\<close>

fun run :: "(nat \<Rightarrow> nat) \<Rightarrow> nat list \<Rightarrow> scan \<Rightarrow> scan option" where
  "run grow [] s = Some s"
| "run grow (i # schedule) s =
     (case step grow i s of None \<Rightarrow> None | Some s' \<Rightarrow> run grow schedule s')"

text \<open>The elements of a slice: the first \<open>len\<close> elements of its array.\<close>

definition elements :: "scan \<Rightarrow> string list" where
  "elements s = take (sl_len (shared s)) (arrays s ! sl_array (shared s))"

text \<open>
  \<open>scanPath\<close> under a schedule. \<open>var commands []string\<close> is the nil slice, here the empty
  array 0. The last goroutine waits for all workers (\<open>group.Wait()\<close>), sorts with
  \<open>sort.Strings\<close> and sends everything on \<open>out\<close>: the result is the content of that channel,
  and \<open>None\<close> when the schedule is not a complete run of the workers.
\<close>

definition scanPath :: "(nat \<Rightarrow> nat) \<Rightarrow> tree \<Rightarrow> string \<Rightarrow> nat list \<Rightarrow> string list option" where
  "scanPath grow t path schedule =
     (let dirs = strings_Split path (CHR '':'');
          start = \<lparr>arrays = [[]],
                   shared = \<lparr>sl_array = 0, sl_len = 0, sl_cap = 0\<rparr>,
                   workers = map (\<lambda>dir. \<lparr>pending = fetchExecutables t dir, loaded = None\<rparr>) dirs\<rparr>
      in case run grow schedule start of
           None \<Rightarrow> None
         | Some s \<Rightarrow>
             if list_all (\<lambda>w. pending w = []) (workers s) then Some (sort (elements s)) else None)"

text \<open>
  The capacity the Go runtime chooses when a full slice of up to 256 strings grows by one
  element: 1 for the nil slice, otherwise twice the old capacity.
\<close>

definition double_cap :: "nat \<Rightarrow> nat" where
  "double_cap c = (if c = 0 then 1 else 2 * c)"

section \<open>launchCommand\<close>

text \<open>
  \<open>exec.LookPath\<close> depends on the environment and is a parameter. Of the \<open>*exec.Cmd\<close> that
  \<open>launchCommand\<close> returns, the argument vector \<open>Args\<close> is modelled: \<open>exec.Command(path, args...)\<close>
  sets it to \<open>path\<close> followed by \<open>args\<close>. The error of \<open>cmd.Start()\<close> is dropped.
\<close>

record Cmd =
  Args :: "string list"

definition launchCommand :: "(string \<rightharpoonup> string) \<Rightarrow> string \<Rightarrow> panic + Cmd" where
  "launchCommand lookPath command =
     (case strings_SplitN2 command (CHR '' '') of
        [] \<Rightarrow> Inl (IndexOutOfRange 0 0)
      | name # args \<Rightarrow>
          (case lookPath name of
             None \<Rightarrow> Inl LookPathError
           | Some path \<Rightarrow> Inr \<lparr>Args = path # args\<rparr>))"

text \<open>
  The split as the description of the launch step words it: the name ends at the first
  white space, and the remainder starts after that run of white space.
\<close>

definition claimed_split :: "string \<Rightarrow> string \<times> string" where
  "claimed_split line =
     (takeWhile (\<lambda>c. \<not> asciiSpace c) line,
      dropWhile asciiSpace (dropWhile (\<lambda>c. \<not> asciiSpace c) line))"

text \<open>
  For comparison, the runs in which no two \<open>append\<close> statements overlap: each worker that
  reads \<open>commands\<close> stores its \<open>append\<close> before any other worker takes a step. Between two
  such statements no worker holds a header, and the slice \<open>commands\<close> is well formed.
\<close>

definition atomic_schedule :: "nat list \<Rightarrow> nat list" where
  "atomic_schedule order = concat (map (\<lambda>i. [i, i]) order)"

definition settled :: "scan \<Rightarrow> bool" where
  "settled s =
     (sl_array (shared s) < length (arrays s)
      \<and> sl_len (shared s) \<le> sl_cap (shared s)
      \<and> length (arrays s ! sl_array (shared s)) = sl_cap (shared s)
      \<and> list_all (\<lambda>w. loaded w = None) (workers s))"

section \<open>Properties of multiplexMenuStreams\<close>

lemma drain_history_dom:
  "dom (fst (drain_history seen out hs)) = dom seen \<union> set hs"
  by (induction hs arbitrary: seen out) auto

lemma drain_history_out:
  "snd (drain_history seen out hs) = out @ hs"
  by (induction hs arbitrary: seen out) auto

lemma drain_commands_eq:
  "drain_commands seen out cs = out @ filter (\<lambda>c. c \<notin> dom seen) cs"
  by (induction cs arbitrary: out) (auto split: option.splits)

text \<open>
  C1. For all ranked and discovered name sequences the multiplexer emits the ranked names
  first, in order and unconditionally, followed by exactly those discovered names, in order,
  that do not occur among the ranked names (the discovered names are not de-duplicated
  among themselves). So the first \<open>length ranked\<close> outputs are the ranked names and all newly
  discovered names come after them. On ranked \<open>[vim, emacs, neovim]\<close> and discovered
  \<open>[emacs, nano, vim]\<close> the output is \<open>[vim, emacs, neovim, nano]\<close>.
\<close>

theorem C1_multiplex_ranked_then_new:
  "multiplexMenuStreams ranked discovered = ranked @ filter (\<lambda>n. n \<notin> set ranked) discovered
   \<and> take (length ranked) (multiplexMenuStreams ranked discovered) = ranked
   \<and> drop (length ranked) (multiplexMenuStreams ranked discovered)
       = filter (\<lambda>n. n \<notin> set ranked) discovered
   \<and> multiplexMenuStreams [''vim'', ''emacs'', ''neovim''] [''emacs'', ''nano'', ''vim'']
       = [''vim'', ''emacs'', ''neovim'', ''nano'']"
proof -
  have eq: "multiplexMenuStreams r d = r @ filter (\<lambda>n. n \<notin> set r) d" for r d
  proof -
    obtain seen out where d: "drain_history Map.empty [] r = (seen, out)"
      by (cases "drain_history Map.empty [] r")
    have "dom seen = set r"
      using drain_history_dom [of Map.empty "[]" r] d by simp
    moreover have "out = r"
      using drain_history_out [of Map.empty "[]" r] d by simp
    ultimately show ?thesis
      by (simp add: multiplexMenuStreams_def d drain_commands_eq)
  qed
  have ex: "multiplexMenuStreams [''vim'', ''emacs'', ''neovim''] [''emacs'', ''nano'', ''vim'']
       = [''vim'', ''emacs'', ''neovim'', ''nano'']"
    by (simp add: eq)
  show ?thesis
    using ex by (simp add: eq)
qed

theorem C1_multiplex_witness:
  "multiplexMenuStreams [''b'', ''a''] [''a'', ''c'', ''c'', ''b''] = [''b'', ''a'', ''c'', ''c'']"
  using C1_multiplex_ranked_then_new [of "[''b'', ''a'']" "[''a'', ''c'', ''c'', ''b'']"]
  by simp

section \<open>Properties of writeHistory\<close>

lemma first_match_Some:
  "first_match h name ps = Some q \<Longrightarrow> q \<in> set ps \<and> (\<exists>c. h q = Some c \<and> Name c = name)"
  by (auto simp: first_match_def find_Some_iff split: option.splits)

lemma first_match_Cons:
  "first_match h name (p # ps) =
     (case h p of None \<Rightarrow> first_match h name ps
      | Some c \<Rightarrow> if Name c = name then Some p else first_match h name ps)"
  by (simp add: first_match_def split: option.splits)

lemma write_loop_cleared:
  "\<forall>p \<in> set ps. \<exists>c. h p = Some c \<and> Name c \<noteq> [] \<Longrightarrow>
   write_loop h out [] ps = (None, h, out @ concat (map (\<lambda>p. format_line (the (h p))) ps), [])"
proof (induction ps arbitrary: out)
  case Nil
  show ?case by simp
next
  case (Cons p ps)
  from Cons.prems obtain c where c: "h p = Some c" "Name c \<noteq> []" by auto
  from Cons.prems have "\<forall>p \<in> set ps. \<exists>c. h p = Some c \<and> Name c \<noteq> []" by simp
  from Cons.IH [OF this] c show ?case by simp
qed

lemma write_loop_claimed:
  assumes "\<forall>p \<in> set ps. \<exists>c. h p = Some c \<and> Name c \<noteq> []"
  shows "write_loop h out lastLaunched ps =
           (None, claimed_store h ps lastLaunched,
            out @ concat (map (\<lambda>p. format_line (the (claimed_store h ps lastLaunched p))) ps),
            case first_match h lastLaunched ps of None \<Rightarrow> lastLaunched | Some _ \<Rightarrow> [])"
  using assms
proof (induction ps arbitrary: out)
  case Nil
  show ?case by (simp add: claimed_store_def first_match_def)
next
  case (Cons p ps)
  from Cons.prems obtain c where c: "h p = Some c" "Name c \<noteq> []" by auto
  from Cons.prems have rest: "\<forall>p \<in> set ps. \<exists>c. h p = Some c \<and> Name c \<noteq> []" by simp
  show ?case
  proof (cases "Name c = lastLaunched")
    case True
    let ?h = "h(p \<mapsto> increment c)"
    have fm: "first_match h lastLaunched (p # ps) = Some p"
      using c True by (simp add: first_match_Cons)
    have st: "claimed_store h (p # ps) lastLaunched = ?h"
      using c by (simp add: claimed_store_def fm)
    have "\<forall>q \<in> set ps. \<exists>d. ?h q = Some d \<and> Name d \<noteq> []"
      using rest c by (auto simp: increment_def)
    from write_loop_cleared [OF this, of "out @ format_line (increment c)"]
    have cleared: "write_loop ?h (out @ format_line (increment c)) [] ps =
            (None, ?h, (out @ format_line (increment c))
               @ concat (map (\<lambda>p. format_line (the (?h p))) ps), [])" .
    have step: "write_loop h out lastLaunched (p # ps) =
            write_loop ?h (out @ format_line (increment c)) [] ps"
      using c True by (simp add: Let_def increment_def)
    show ?thesis
      unfolding st fm step cleared by (simp add: fun_eq_iff)
  next
    case False
    have fm: "first_match h lastLaunched (p # ps) = first_match h lastLaunched ps"
      using c False by (simp add: first_match_Cons)
    have st: "claimed_store h (p # ps) lastLaunched = claimed_store h ps lastLaunched"
      by (simp add: claimed_store_def fm)
    have same: "claimed_store h ps lastLaunched p = Some c"
    proof (cases "first_match h lastLaunched ps")
      case None
      then show ?thesis using c by (simp add: claimed_store_def)
    next
      case (Some q)
      with first_match_Some [OF Some] c False have "q \<noteq> p" by auto
      then show ?thesis using c Some by (simp add: claimed_store_def)
    qed
    show ?thesis
      using c False Cons.IH [OF rest] by (simp add: st fm same)
  qed
qed




text \<open>
  The launched name must not be empty for the appended record: with \<open>""\<close> and no match
  \<open>writeHistory\<close> appends nothing. \<open>main\<close> never passes \<open>""\<close> (\<open>if len(cmd) > 0\<close>).
\<close>

lemma writeHistory_empty_selection:
  "files (snd (snd (writeHistory \<lparr>files = Map.empty, creatable = (\<lambda>_. True)\<rparr>
                      [7 \<mapsto> \<lparr>Name = ''emacs'', Calls = 3\<rparr>] ''history.tsv'' [7] []))) ''history.tsv''
     = Some (''3'' @ [CHR 0x09] @ ''emacs'' @ [CHR 0x0A])"
  by (simp add: writeHistory_def os_Create_def format_line_def decimal.simps Let_def)

text \<open>
  On commands whose names are not empty, \<open>writeHistory\<close> changes the store as described:
  the first command of the slice whose name equals the launched name has its count increased
  by one in \<open>uint64\<close> arithmetic and its name unchanged, every other command is unchanged, and
  nothing changes when no name matches; a second call on the same slice increments the same
  command once more.
\<close>

lemma writeHistory_store:
  assumes "creatable fs path"
    and "\<forall>p \<in> set commands. \<exists>c. h p = Some c \<and> Name c \<noteq> []"
  shows "fst (writeHistory fs h path commands lastLaunched) = None
       \<and> fst (snd (writeHistory fs h path commands lastLaunched)) = claimed_store h commands lastLaunched
       \<and> creatable (snd (snd (writeHistory fs h path commands lastLaunched))) path"
  using assms(1) write_loop_claimed [OF assms(2), of "[]" lastLaunched]
  by (auto simp: writeHistory_def os_Create_def Let_def split: option.splits)

lemma writeHistory_first_match_only:
  assumes "creatable fs path"
    and "\<forall>p \<in> set commands. \<exists>c. h p = Some c \<and> Name c \<noteq> []"
    and "h' = fst (snd (writeHistory fs h path commands lastLaunched))"
    and "fs' = snd (snd (writeHistory fs h path commands lastLaunched))"
    and "h'' = fst (snd (writeHistory fs' h' path commands lastLaunched))"
  shows "(case first_match h lastLaunched commands of
            None \<Rightarrow> h' = h \<and> h'' = h
          | Some q \<Rightarrow>
              q \<in> set commands
              \<and> map_option Name (h q) = Some lastLaunched
              \<and> map_option Name (h' q) = Some lastLaunched
              \<and> map_option Calls (h' q) = map_option (\<lambda>c. Calls c + 1) (h q)
              \<and> map_option Calls (h'' q) = map_option (\<lambda>c. Calls c + 1 + 1) (h q)
              \<and> (\<forall>p. p \<noteq> q \<longrightarrow> h' p = h p \<and> h'' p = h p))"
proof -
  have h': "h' = claimed_store h commands lastLaunched"
    using writeHistory_store [OF assms(1,2)] assms(3) by simp
  have fs': "creatable fs' path"
    using writeHistory_store [OF assms(1,2)] assms(4) by simp
  have valid': "\<forall>p \<in> set commands. \<exists>c. h' p = Some c \<and> Name c \<noteq> []"
    using assms(2) unfolding h' claimed_store_def
    by (auto simp: increment_def split: option.splits)
  have h'': "h'' = claimed_store h' commands lastLaunched"
    using writeHistory_store [OF fs' valid'] assms(5) by simp
  show ?thesis
  proof (cases "first_match h lastLaunched commands")
    case None
    then have "h' = h" by (simp add: h' claimed_store_def)
    with None show ?thesis by (simp add: h'' claimed_store_def)
  next
    case (Some q)
    from first_match_Some [OF Some] obtain c
      where q: "q \<in> set commands" "h q = Some c" "Name c = lastLaunched" by auto
    have hq: "h' = h(q \<mapsto> increment c)"
      using Some q by (simp add: h' claimed_store_def)
    have "first_match h' lastLaunched commands = first_match h lastLaunched commands"
      unfolding first_match_def hq
      by (rule arg_cong [where f = "\<lambda>P. find P commands"])
         (auto simp: fun_eq_iff increment_def q split: option.splits)
    then have "h'' = h'(q \<mapsto> increment (increment c))"
      using Some by (simp add: h'' claimed_store_def hq)
    then show ?thesis
      using Some q by (simp add: hq increment_def)
  qed
qed

section \<open>Properties of readHistory\<close>

lemma strings_Split_not_Nil: "strings_Split s sep \<noteq> []"
  by (induction s) (auto split: list.splits)

lemma parse_line_cases:
  "parse_line text =
     (if \<not> count_parses text
      then Inl (NumError (projl (strconv_ParseInt (hd (line_fields text)))))
      else if length (line_fields text) < 2 then Inl (IndexOutOfRange 1 1)
      else Inr \<lparr>Name = line_fields text ! 1,
                Calls = word_of_int (projr (strconv_ParseInt (hd (line_fields text))))\<rparr>)"
proof (cases "line_fields text")
  case Nil
  then show ?thesis using strings_Split_not_Nil by (simp add: line_fields_def)
next
  case (Cons s0 rest)
  then have sp: "strings_Split (strings_TrimSpace text) (CHR 0x09) = s0 # rest"
    by (simp add: line_fields_def)
  show ?thesis
    by (cases "strconv_ParseInt s0"; cases rest)
       (simp_all add: parse_line_def sp count_parses_def Cons)
qed

lemma parse_line_Inr_iff:
  "(\<exists>c. parse_line text = Inr c) \<longleftrightarrow> parses_as_record text"
  by (auto simp: parse_line_cases parses_as_record_def)

lemma parse_line_not_count:
  "\<not> count_parses text \<Longrightarrow> \<exists>e. parse_line text = Inl e"
  by (simp add: parse_line_cases)

lemma read_loop_Inr:
  "map parse_line ls = map Inr ps \<Longrightarrow> read_loop acc ls = Inr (acc @ ps)"
proof (induction ls arbitrary: acc ps)
  case Nil
  then show ?case by simp
next
  case (Cons l ls)
  then obtain p ps' where ps: "ps = p # ps'" "parse_line l = Inr p" "map parse_line ls = map Inr ps'"
    by (cases ps) auto
  from Cons.IH [OF ps(3), of "acc @ [p]"] ps show ?case by simp
qed

lemma read_loop_Inl:
  "\<exists>l \<in> set ls. \<exists>e. parse_line l = Inl e \<Longrightarrow> \<exists>e. read_loop acc ls = Inl e"
proof (induction ls arbitrary: acc)
  case Nil
  then show ?case by simp
next
  case (Cons l ls)
  show ?case
  proof (cases "parse_line l")
    case (Inl e)
    then show ?thesis by simp
  next
    case (Inr c)
    with Cons.prems have "\<exists>l \<in> set ls. \<exists>e. parse_line l = Inl e" by auto
    from Cons.IH [OF this, of "acc @ [c]"] Inr show ?thesis by simp
  qed
qed

lemma all_records_parsed:
  assumes "\<forall>l \<in> set ls. parses_as_record l"
  shows "map parse_line ls = map Inr (map (\<lambda>l. projr (parse_line l)) ls)"
proof -
  have "parse_line l = Inr (projr (parse_line l))" if "l \<in> set ls" for l
    using that assms parse_line_Inr_iff [of l] by auto
  then show ?thesis by simp
qed

lemma readHistory_parsed:
  assumes "os_Open fs path = Some content"
    and "map parse_line (scanner_lines content) = map Inr parsed"
  shows "readHistory fs path r \<longleftrightarrow>
           (\<exists>cs. r = Inr cs \<and> mset cs = mset parsed \<and> sorted_wrt (\<lambda>a b. Calls b \<le> Calls a) cs)"
proof -
  have "read_loop [] (scanner_lines content) = Inr parsed"
    using read_loop_Inr [OF assms(2), of "[]"] by simp
  then show ?thesis
    using assms(1)
    by (cases r)
       (auto simp: readHistory_def sort_Sort_def sort_Reverse_def ByScore_Less_def not_less)
qed

lemma claimed_order_admitted:
  "mset (claimed_order parsed) = mset parsed \<and>
   sorted_wrt (\<lambda>a b. Calls b \<le> Calls a) (claimed_order parsed)"
proof -
  have "sorted (map Calls (sort_key Calls (rev parsed)))"
    by (rule sorted_sort_key)
  then have "sorted_wrt (\<lambda>a b. Calls a \<le> Calls b) (sort_key Calls (rev parsed))"
    by (simp add: sorted_map)
  then show ?thesis
    by (simp add: claimed_order_def sorted_wrt_rev)
qed

lemma descending_unique:
  assumes "mset cs = mset parsed"
    and "sorted_wrt (\<lambda>a b. Calls b \<le> Calls a) cs"
    and "distinct (map Calls parsed)"
  shows "cs = claimed_order parsed"
proof -
  let ?ys = "rev cs" and ?zs = "sort_key Calls (rev parsed)"
  have my: "mset ?ys = mset parsed" using assms(1) by simp
  have mz: "mset ?zs = mset parsed" by simp
  have sy: "sorted (map Calls ?ys)"
    using assms(2) by (simp add: sorted_map sorted_wrt_rev sorted_wrt_map flip: rev_map)
  have sz: "sorted (map Calls ?zs)" by (rule sorted_sort_key)
  have dy: "distinct (map Calls ?ys)"
    using assms(3) my by (metis mset_eq_imp_distinct_iff mset_map)
  have dz: "distinct (map Calls ?zs)"
    using assms(3) mz by (metis mset_eq_imp_distinct_iff mset_map)
  have "set (map Calls ?ys) = set (map Calls ?zs)"
    using my mz by (metis mset_eq_setD set_map)
  with sy sz dy dz have keys: "map Calls ?ys = map Calls ?zs"
    by (blast intro: sorted_distinct_set_unique)
  have "inj_on Calls (set parsed)"
    using assms(3) by (simp add: distinct_map)
  moreover have "set ?ys = set parsed" "set ?zs = set parsed"
    using my mz by (metis mset_eq_setD)+
  ultimately have "?ys = ?zs"
    using keys by (metis inj_on_map_eq_map Un_absorb)
  then have "rev (rev cs) = rev ?zs" by (rule arg_cong)
  then show ?thesis by (simp add: claimed_order_def)
qed

lemma scanner_lines_all:
  "\<forall>l \<in> set (raw_lines content). length l < MaxScanTokenSize \<Longrightarrow>
   scanner_lines content = map dropCR (raw_lines content)"
proof -
  assume "\<forall>l \<in> set (raw_lines content). length l < MaxScanTokenSize"
  then have tw: "takeWhile (\<lambda>l. length l < MaxScanTokenSize) (raw_lines content) = raw_lines content"
    by (simp add: takeWhile_eq_all_conv)
  show ?thesis by (simp only: scanner_lines_def tw)
qed

text \<open>\<open>readHistory\<close> always has an outcome: it panics or returns.\<close>

lemma sort_Sort_possible:
  "sort_Sort (sort_Reverse ByScore_Less) history (claimed_order history)"
  using claimed_order_admitted [of history]
  by (simp add: sort_Sort_def sort_Reverse_def ByScore_Less_def not_less)

lemma readHistory_total: "\<exists>r. readHistory fs path r"
proof (cases "os_Open fs path")
  case None
  then show ?thesis by (simp add: readHistory_def)
next
  case (Some content)
  show ?thesis
  proof (cases "read_loop [] (scanner_lines content)")
    case (Inl e)
    with Some show ?thesis by (simp add: readHistory_def)
  next
    case (Inr history)
    with Some sort_Sort_possible [of history]
    have "readHistory fs path (Inr (claimed_order history))"
      by (simp add: readHistory_def)
    then show ?thesis ..
  qed
qed

lemmas read_eval =
  readHistory_def os_Open_def scanner_lines_def raw_lines_def dropCR_def MaxScanTokenSize_def
  parse_line_def line_fields_def count_parses_def parses_as_record_def
  strings_TrimSpace_def trim_left.simps space_width_def asciiSpace_def unicode_spaces_def
  strconv_ParseInt_def is_digit_def digit_val_def

text \<open>
  C3 (as amended). When the file can be opened and every line the scanner delivers parses
  as \<open>Calls\tName\<close> (these are all lines of the file when each is shorter than
  \<open>MaxScanTokenSize\<close>, see \<open>scanner_lines_all\<close>), \<open>readHistory\<close> returns, and what it
  returns is a rearrangement of the parsed commands that is sorted by \<open>Calls\<close> descending.
  The order of the file among commands with equal \<open>Calls\<close> is one possible result but is
  not guaranteed, since \<open>sort.Sort\<close> is not stable; when all counts differ the result is
  determined. On the file \<open>"3\tvim\n1\tnano\n"\<close> the result is \<open>[{vim,3},{nano,1}]\<close>.
\<close>

theorem C3_read_sorted_descending:
  assumes "os_Open fs path = Some content"
    and "map parse_line (scanner_lines content) = map Inr parsed"
  shows "(readHistory fs path r \<longleftrightarrow>
            (\<exists>cs. r = Inr cs \<and> mset cs = mset parsed
                  \<and> sorted_wrt (\<lambda>a b. Calls b \<le> Calls a) cs))
       \<and> readHistory fs path (Inr (claimed_order parsed))
       \<and> (distinct (map Calls parsed) \<longrightarrow>
            (readHistory fs path r \<longleftrightarrow> r = Inr (claimed_order parsed)))"
proof -
  note iff = readHistory_parsed [OF assms]
  have possible: "readHistory fs path (Inr (claimed_order parsed))"
    using claimed_order_admitted [of parsed] by (simp add: iff)
  have "readHistory fs path r \<longleftrightarrow> r = Inr (claimed_order parsed)"
    if "distinct (map Calls parsed)"
  proof
    assume "readHistory fs path r"
    then obtain cs where "r = Inr cs" "mset cs = mset parsed"
      "sorted_wrt (\<lambda>a b. Calls b \<le> Calls a) cs"
      unfolding iff by blast
    with descending_unique [OF _ _ that] show "r = Inr (claimed_order parsed)" by simp
  next
    assume "r = Inr (claimed_order parsed)"
    with possible show "readHistory fs path r" by simp
  qed
  with possible iff show ?thesis by blast
qed

theorem C3_read_witness:
  "\<forall>r. readHistory
          \<lparr>files = [''history.tsv'' \<mapsto> ''3'' @ [CHR 0x09] @ ''vim'' @ [CHR 0x0A]
                                       @ ''1'' @ [CHR 0x09] @ ''nano'' @ [CHR 0x0A]],
           creatable = (\<lambda>_. True)\<rparr> ''history.tsv'' r
        \<longleftrightarrow> r = Inr [\<lparr>Name = ''vim'', Calls = 3\<rparr>, \<lparr>Name = ''nano'', Calls = 1\<rparr>]"
proof
  fix r
  let ?content = "''3'' @ [CHR 0x09] @ ''vim'' @ [CHR 0x0A] @ ''1'' @ [CHR 0x09] @ ''nano'' @ [CHR 0x0A]"
  let ?fs = "\<lparr>files = [''history.tsv'' \<mapsto> ?content], creatable = (\<lambda>_. True)\<rparr> :: filesystem"
  let ?parsed = "[\<lparr>Name = ''vim'', Calls = 3\<rparr>, \<lparr>Name = ''nano'', Calls = 1\<rparr>]"
  have a1: "os_Open ?fs ''history.tsv'' = Some ?content"
    by (simp add: os_Open_def)
  have a2: "map parse_line (scanner_lines ?content) = map Inr ?parsed"
    by (simp add: read_eval)
  have d: "distinct (map Calls ?parsed)" by simp
  have o: "claimed_order ?parsed = ?parsed"
    by (simp add: claimed_order_def word_le_nat_alt)
  from C3_read_sorted_descending [where fs = ?fs and parsed = ?parsed and r = r, OF a1 a2] d
  have "readHistory ?fs ''history.tsv'' r \<longleftrightarrow> r = Inr (claimed_order ?parsed)"
    by blast
  then show "readHistory ?fs ''history.tsv'' r \<longleftrightarrow> r = Inr ?parsed"
    unfolding o .
qed

text \<open>
  Thirteen lines, twelve with one call and a last one with two. The order below is sorted by
  \<open>Calls\<close> descending and a rearrangement of the file, so \<open>sort.Sort\<close> may produce it, but
  \<open>g\<close> precedes \<open>a\<close> and \<open>b\<close> comes last, against the order of the file.
\<close>

theorem C3_read_counterexample:
  "readHistory
     \<lparr>files = [''history.tsv'' \<mapsto>
        concat (map (\<lambda>n. ''1'' @ [CHR 0x09, n, CHR 0x0A]) ''abcdefghijkl'')
        @ ''2'' @ [CHR 0x09] @ ''m'' @ [CHR 0x0A]],
      creatable = (\<lambda>_. True)\<rparr> ''history.tsv''
     (Inr (\<lparr>Name = ''m'', Calls = 2\<rparr> # map (\<lambda>n. \<lparr>Name = [n], Calls = 1\<rparr>) ''gcdefahijklb''))
   \<and> claimed_order (map (\<lambda>n. \<lparr>Name = [n], Calls = 1\<rparr>) ''abcdefghijkl'' @ [\<lparr>Name = ''m'', Calls = 2\<rparr>])
       = \<lparr>Name = ''m'', Calls = 2\<rparr> # map (\<lambda>n. \<lparr>Name = [n], Calls = 1\<rparr>) ''abcdefghijkl''
   \<and> map parse_line (scanner_lines
        (concat (map (\<lambda>n. ''1'' @ [CHR 0x09, n, CHR 0x0A]) ''abcdefghijkl'')
         @ ''2'' @ [CHR 0x09] @ ''m'' @ [CHR 0x0A]))
       = map Inr (map (\<lambda>n. \<lparr>Name = [n], Calls = 1\<rparr>) ''abcdefghijkl'' @ [\<lparr>Name = ''m'', Calls = 2\<rparr>])"
proof -
  let ?content = "concat (map (\<lambda>n. ''1'' @ [CHR 0x09, n, CHR 0x0A]) ''abcdefghijkl'')
        @ ''2'' @ [CHR 0x09] @ ''m'' @ [CHR 0x0A]"
  let ?parsed = "map (\<lambda>n. \<lparr>Name = [n], Calls = 1\<rparr>) ''abcdefghijkl'' @ [\<lparr>Name = ''m'', Calls = 2\<rparr>]"
  have p: "map parse_line (scanner_lines ?content) = map Inr ?parsed"
    by (simp add: read_eval)
  have o: "claimed_order ?parsed
       = \<lparr>Name = ''m'', Calls = 2\<rparr> # map (\<lambda>n. \<lparr>Name = [n], Calls = 1\<rparr>) ''abcdefghijkl''"
    by (simp add: claimed_order_def word_le_nat_alt)
  have "read_loop [] (scanner_lines ?content) = Inr ?parsed"
    using read_loop_Inr [OF p, of "[]"] by simp
  then have "readHistory
     \<lparr>files = [''history.tsv'' \<mapsto> ?content], creatable = (\<lambda>_. True)\<rparr> ''history.tsv''
     (Inr (\<lparr>Name = ''m'', Calls = 2\<rparr> # map (\<lambda>n. \<lparr>Name = [n], Calls = 1\<rparr>) ''gcdefahijklb''))"
    by (simp add: readHistory_def os_Open_def sort_Sort_def sort_Reverse_def ByScore_Less_def
          word_less_nat_alt)
  with p o show ?thesis by (simp only: simp_thms)
qed

text \<open>
  C4 (as amended). A history file that does not exist is not an error: the result is empty.
  If the count field of some line that the scanner delivers fails to parse as an integer,
  \<open>readHistory\<close> panics: no line is skipped and nothing is returned. If every delivered line
  parses as \<open>Calls\tName\<close>, it returns and does not panic. (What happens on a line whose
  count parses but whose name field is missing is the subject of C9.)
\<close>

theorem C4_read_aborts_on_bad_count:
  "(os_Open fs path = None \<longrightarrow> (readHistory fs path r \<longleftrightarrow> r = Inr []))
   \<and> (os_Open fs path = Some content \<and> (\<exists>l \<in> set (scanner_lines content). \<not> count_parses l)
        \<longrightarrow> (\<exists>e. \<forall>r'. readHistory fs path r' \<longleftrightarrow> r' = Inl e))
   \<and> (os_Open fs path = Some content \<and> (\<forall>l \<in> set (scanner_lines content). parses_as_record l)
        \<longrightarrow> (\<exists>cs. readHistory fs path (Inr cs)) \<and> (\<forall>e. \<not> readHistory fs path (Inl e)))"
proof (intro conjI impI)
  assume "os_Open fs path = None"
  then show "readHistory fs path r \<longleftrightarrow> r = Inr []"
    by (simp add: readHistory_def)
next
  assume a: "os_Open fs path = Some content \<and> (\<exists>l \<in> set (scanner_lines content). \<not> count_parses l)"
  then have "\<exists>l \<in> set (scanner_lines content). \<exists>e. parse_line l = Inl e"
    using parse_line_not_count by blast
  from read_loop_Inl [OF this, of "[]"] obtain e
    where "read_loop [] (scanner_lines content) = Inl e" by blast
  with a have "\<forall>r'. readHistory fs path r' \<longleftrightarrow> r' = Inl e"
    by (simp add: readHistory_def)
  then show "\<exists>e. \<forall>r'. readHistory fs path r' \<longleftrightarrow> r' = Inl e" ..
next
  assume a: "os_Open fs path = Some content \<and> (\<forall>l \<in> set (scanner_lines content). parses_as_record l)"
  let ?parsed = "map (\<lambda>l. projr (parse_line l)) (scanner_lines content)"
  from a have p: "map parse_line (scanner_lines content) = map Inr ?parsed"
    using all_records_parsed by blast
  from a have opened: "os_Open fs path = Some content" ..
  note iff = readHistory_parsed [OF opened p]
  have "readHistory fs path (Inr (claimed_order ?parsed))"
    using claimed_order_admitted [of ?parsed] by (simp add: iff)
  then show "\<exists>cs. readHistory fs path (Inr cs)" ..
  show "\<forall>e. \<not> readHistory fs path (Inl e)"
    by (simp add: iff)
qed

theorem C4_read_witness:
  "(\<forall>r. readHistory \<lparr>files = Map.empty, creatable = (\<lambda>_. True)\<rparr> ''bogus_dir'' r \<longleftrightarrow> r = Inr [])
   \<and> \<not> count_parses (''x'' @ [CHR 0x09] @ ''emacs'')
   \<and> (\<exists>e. \<forall>r. readHistory
          \<lparr>files = [''history.tsv'' \<mapsto> ''2'' @ [CHR 0x09] @ ''vim'' @ [CHR 0x0A] @ ''x'' @ [CHR 0x09]
                                       @ ''emacs'' @ [CHR 0x0A]],
           creatable = (\<lambda>_. True)\<rparr> ''history.tsv'' r \<longleftrightarrow> r = Inl e)
   \<and> parses_as_record (''3'' @ [CHR 0x09] @ ''vim'')
   \<and> (\<exists>cs. readHistory
          \<lparr>files = [''history.tsv'' \<mapsto> ''3'' @ [CHR 0x09] @ ''vim'' @ [CHR 0x0A]],
           creatable = (\<lambda>_. True)\<rparr> ''history.tsv'' (Inr cs))"
proof -
  let ?none = "\<lparr>files = Map.empty, creatable = (\<lambda>_. True)\<rparr> :: filesystem"
  let ?bad = "''2'' @ [CHR 0x09] @ ''vim'' @ [CHR 0x0A] @ ''x'' @ [CHR 0x09] @ ''emacs'' @ [CHR 0x0A]"
  let ?good = "''3'' @ [CHR 0x09] @ ''vim'' @ [CHR 0x0A]"
  let ?fsb = "\<lparr>files = [''history.tsv'' \<mapsto> ?bad], creatable = (\<lambda>_. True)\<rparr> :: filesystem"
  let ?fsg = "\<lparr>files = [''history.tsv'' \<mapsto> ?good], creatable = (\<lambda>_. True)\<rparr> :: filesystem"
  have n: "os_Open ?none ''bogus_dir'' = None"
    by (simp add: os_Open_def)
  have x: "\<not> count_parses (''x'' @ [CHR 0x09] @ ''emacs'')"
    by (simp add: read_eval)
  have b: "os_Open ?fsb ''history.tsv'' = Some ?bad
           \<and> (\<exists>l \<in> set (scanner_lines ?bad). \<not> count_parses l)"
    by (simp add: read_eval)
  have v: "parses_as_record (''3'' @ [CHR 0x09] @ ''vim'')"
    by (simp add: read_eval)
  have g: "os_Open ?fsg ''history.tsv'' = Some ?good
           \<and> (\<forall>l \<in> set (scanner_lines ?good). parses_as_record l)"
    by (simp add: read_eval)
  have 1: "\<forall>r. readHistory ?none ''bogus_dir'' r \<longleftrightarrow> r = Inr []"
    using C4_read_aborts_on_bad_count [where fs = ?none and path = "''bogus_dir''"] n by blast
  have 2: "\<exists>e. \<forall>r. readHistory ?fsb ''history.tsv'' r \<longleftrightarrow> r = Inl e"
    using C4_read_aborts_on_bad_count [where fs = ?fsb and content = ?bad] b by blast
  have 3: "\<exists>cs. readHistory ?fsg ''history.tsv'' (Inr cs)"
    using C4_read_aborts_on_bad_count [where fs = ?fsg and content = ?good] g by blast
  from 1 x 2 v 3 show ?thesis by (simp only: simp_thms)
qed

text \<open>
  The count field of every line parses, and still \<open>readHistory\<close> panics: the second line has
  no tab, so \<open>s[1]\<close> is out of range.
\<close>

theorem C4_read_counterexample:
  "list_all count_parses
     (scanner_lines (''2'' @ [CHR 0x09] @ ''vim'' @ [CHR 0x0A] @ ''7'' @ [CHR 0x0A]))
   \<and> readHistory
        \<lparr>files = [''history.tsv'' \<mapsto> ''2'' @ [CHR 0x09] @ ''vim'' @ [CHR 0x0A] @ ''7'' @ [CHR 0x0A]],
         creatable = (\<lambda>_. True)\<rparr> ''history.tsv'' (Inl (IndexOutOfRange 1 1))"
  by (simp add: read_eval)

text \<open>
  C9. There is a history file of a single non-empty line without a tab, \<open>"3\n"\<close>, on which
  \<open>readHistory\<close> neither returns a result nor fails in parsing the count (\<open>"3"\<close> parses as 3):
  its only outcome is the run-time panic of the index expression \<open>s[1]\<close> on a slice of
  length 1.
\<close>

theorem C9_read_missing_tab_panics:
  "(readHistory \<lparr>files = [''history.tsv'' \<mapsto> ''3'' @ [CHR 0x0A]], creatable = c\<rparr> ''history.tsv'' r
      \<longleftrightarrow> r = Inl (IndexOutOfRange 1 1))
   \<and> scanner_lines (''3'' @ [CHR 0x0A]) = [''3'']
   \<and> CHR 0x09 \<notin> set ''3''
   \<and> strconv_ParseInt ''3'' = Inr 3
   \<and> line_fields ''3'' = [''3'']"
  by (simp add: read_eval)

section \<open>writeHistory on a history with an empty name\<close>

text \<open>
  C10. \<open>writeHistory\<close> changes the caller's commands in place, and it is meant to change one
  of them: it sets \<open>lastCommand = ""\<close> after the first match so that no later command
  matches. A later command whose name is empty does match \<open>""\<close>, and is incremented as well.
  The history file \<open>"5\tvim\n2\t\tx\n"\<close> is read as \<open>[{vim,5},{"",2}]\<close>; after
  \<open>writeHistory\<close> with these commands and \<open>"vim"\<close>, the first command, the one whose name
  equals the launched name, is \<open>{vim,6}\<close>, and the other command, which should be unchanged,
  is \<open>{"",3}\<close>.
\<close>

theorem C10_write_increments_empty_name:
  "map parse_line (scanner_lines (''5'' @ [CHR 0x09] @ ''vim'' @ [CHR 0x0A]
                                  @ ''2'' @ [CHR 0x09, CHR 0x09] @ ''x'' @ [CHR 0x0A]))
     = [Inr \<lparr>Name = ''vim'', Calls = 5\<rparr>, Inr \<lparr>Name = [], Calls = 2\<rparr>]
   \<and> readHistory
        \<lparr>files = [''history.tsv'' \<mapsto> ''5'' @ [CHR 0x09] @ ''vim'' @ [CHR 0x0A]
                                     @ ''2'' @ [CHR 0x09, CHR 0x09] @ ''x'' @ [CHR 0x0A]],
         creatable = (\<lambda>_. True)\<rparr> ''history.tsv''
        (Inr [\<lparr>Name = ''vim'', Calls = 5\<rparr>, \<lparr>Name = [], Calls = 2\<rparr>])
   \<and> first_match [7 \<mapsto> \<lparr>Name = ''vim'', Calls = 5\<rparr>, 8 \<mapsto> \<lparr>Name = [], Calls = 2\<rparr>] ''vim'' [7, 8]
       = Some 7
   \<and> fst (writeHistory \<lparr>files = Map.empty, creatable = (\<lambda>_. True)\<rparr>
           [7 \<mapsto> \<lparr>Name = ''vim'', Calls = 5\<rparr>, 8 \<mapsto> \<lparr>Name = [], Calls = 2\<rparr>]
           ''history.tsv'' [7, 8] ''vim'') = None
   \<and> fst (snd (writeHistory \<lparr>files = Map.empty, creatable = (\<lambda>_. True)\<rparr>
           [7 \<mapsto> \<lparr>Name = ''vim'', Calls = 5\<rparr>, 8 \<mapsto> \<lparr>Name = [], Calls = 2\<rparr>]
           ''history.tsv'' [7, 8] ''vim'')) 7 = Some \<lparr>Name = ''vim'', Calls = 6\<rparr>
   \<and> fst (snd (writeHistory \<lparr>files = Map.empty, creatable = (\<lambda>_. True)\<rparr>
           [7 \<mapsto> \<lparr>Name = ''vim'', Calls = 5\<rparr>, 8 \<mapsto> \<lparr>Name = [], Calls = 2\<rparr>]
           ''history.tsv'' [7, 8] ''vim'')) 8 = Some \<lparr>Name = [], Calls = 3\<rparr>"
proof -
  let ?content = "''5'' @ [CHR 0x09] @ ''vim'' @ [CHR 0x0A] @ ''2'' @ [CHR 0x09, CHR 0x09] @ ''x'' @ [CHR 0x0A]"
  have p: "map parse_line (scanner_lines ?content)
     = [Inr \<lparr>Name = ''vim'', Calls = 5\<rparr>, Inr \<lparr>Name = [], Calls = 2\<rparr>]"
    by (simp add: read_eval)
  then have "read_loop [] (scanner_lines ?content)
     = Inr [\<lparr>Name = ''vim'', Calls = 5\<rparr>, \<lparr>Name = [], Calls = 2\<rparr>]"
    using read_loop_Inr [of "scanner_lines ?content"
        "[\<lparr>Name = ''vim'', Calls = 5\<rparr>, \<lparr>Name = [], Calls = 2\<rparr>]" "[]"]
    by simp
  then have r: "readHistory
        \<lparr>files = [''history.tsv'' \<mapsto> ?content], creatable = (\<lambda>_. True)\<rparr> ''history.tsv''
        (Inr [\<lparr>Name = ''vim'', Calls = 5\<rparr>, \<lparr>Name = [], Calls = 2\<rparr>])"
    by (simp add: readHistory_def os_Open_def sort_Sort_def sort_Reverse_def ByScore_Less_def
          word_less_nat_alt)
  have w: "first_match [7 \<mapsto> \<lparr>Name = ''vim'', Calls = 5\<rparr>, 8 \<mapsto> \<lparr>Name = [], Calls = 2\<rparr>] ''vim'' [7, 8]
       = Some 7
   \<and> fst (writeHistory \<lparr>files = Map.empty, creatable = (\<lambda>_. True)\<rparr>
           [7 \<mapsto> \<lparr>Name = ''vim'', Calls = 5\<rparr>, 8 \<mapsto> \<lparr>Name = [], Calls = 2\<rparr>]
           ''history.tsv'' [7, 8] ''vim'') = None
   \<and> fst (snd (writeHistory \<lparr>files = Map.empty, creatable = (\<lambda>_. True)\<rparr>
           [7 \<mapsto> \<lparr>Name = ''vim'', Calls = 5\<rparr>, 8 \<mapsto> \<lparr>Name = [], Calls = 2\<rparr>]
           ''history.tsv'' [7, 8] ''vim'')) 7 = Some \<lparr>Name = ''vim'', Calls = 6\<rparr>
   \<and> fst (snd (writeHistory \<lparr>files = Map.empty, creatable = (\<lambda>_. True)\<rparr>
           [7 \<mapsto> \<lparr>Name = ''vim'', Calls = 5\<rparr>, 8 \<mapsto> \<lparr>Name = [], Calls = 2\<rparr>]
           ''history.tsv'' [7, 8] ''vim'')) 8 = Some \<lparr>Name = [], Calls = 3\<rparr>"
    by (simp add: writeHistory_def os_Create_def first_match_def Let_def)
  from p r w show ?thesis by (simp only: simp_thms)
qed

section \<open>Properties of fetchExecutables, scanPath and launchCommand\<close>

lemma send_executables_eq:
  "send_executables out fs = out @ map FileName (filter (\<lambda>f. Mode f AND 0x49 \<noteq> 0) fs)"
  by (induction fs arbitrary: out) auto

lemma bit_0111: "bit (0x49 :: 32 word) n \<longleftrightarrow> n = 0 \<or> n = 3 \<or> n = 6"
proof -
  have "(0x49 :: 32 word) = 2 ^ 0 OR 2 ^ 3 OR 2 ^ 6" by simp
  then show ?thesis
    by (simp only: bit_or_iff bit_exp_iff) (auto simp: possible_bit_word)
qed

lemma execute_bits:
  "(m :: 32 word) AND 0x49 \<noteq> 0 \<longleftrightarrow> bit m 0 \<or> bit m 3 \<or> bit m 6"
proof
  assume nz: "m AND 0x49 \<noteq> 0"
  show "bit m 0 \<or> bit m 3 \<or> bit m 6"
  proof (rule ccontr)
    assume none: "\<not> (bit m 0 \<or> bit m 3 \<or> bit m 6)"
    have "m AND 0x49 = 0"
    proof (rule bit_eqI)
      fix n
      show "bit (m AND 0x49) n \<longleftrightarrow> bit (0 :: 32 word) n"
        using none bit_0111 [of n] by (auto simp: bit_and_iff)
    qed
    with nz show False by simp
  qed
next
  assume "bit m 0 \<or> bit m 3 \<or> bit m 6"
  then obtain k where "bit m k" "k = 0 \<or> k = 3 \<or> k = 6" by blast
  then have "bit (m AND 0x49) k" using bit_0111 [of k] by (auto simp: bit_and_iff)
  then show "m AND 0x49 \<noteq> 0" by auto
qed

text \<open>
  C6. For every directory, \<open>fetchExecutables\<close> sends exactly the names of those entries of
  that directory, in the order of the listing, whose mode has the execute bit of the owner
  (bit 6), of the group (bit 3) or of the others (bit 0) set, which is what \<open>mode & 0111 != 0\<close>
  tests; only the entries of the directory itself are looked at. A directory that cannot be
  read gives the empty sequence, and no outcome is an error. With entries of mode \<open>0111\<close>,
  \<open>0666\<close> and \<open>0744\<close> the two with an execute bit are sent.
\<close>

theorem C6_fetchExecutables_execute_bit:
  "fetchExecutables t dir =
     (case t dir of
        None \<Rightarrow> []
      | Some entries \<Rightarrow>
          map FileName (filter (\<lambda>f. bit (Mode f) 0 \<or> bit (Mode f) 3 \<or> bit (Mode f) 6)
                          (sort_key FileName entries)))
   \<and> fetchExecutables
        [''/tmp/yegonesh'' \<mapsto> [\<lparr>FileName = ''emacs'', Mode = 0x49\<rparr>,
                               \<lparr>FileName = ''nano'', Mode = 0x1B6\<rparr>,
                               \<lparr>FileName = ''vim'', Mode = 0x1E4\<rparr>]] ''/tmp/yegonesh''
       = [''emacs'', ''vim'']"
proof -
  have "filter (\<lambda>f. Mode f AND 0x49 \<noteq> 0) fs
        = filter (\<lambda>f. bit (Mode f) 0 \<or> bit (Mode f) 3 \<or> bit (Mode f) 6) fs" for fs :: "FileInfo list"
    by (rule filter_cong) (simp_all only: execute_bits)
  then have "fetchExecutables t dir =
     (case t dir of
        None \<Rightarrow> []
      | Some entries \<Rightarrow>
          map FileName (filter (\<lambda>f. bit (Mode f) 0 \<or> bit (Mode f) 3 \<or> bit (Mode f) 6)
                          (sort_key FileName entries)))"
    by (simp add: fetchExecutables_def ioutil_ReadDir_def send_executables_eq split: option.splits)
  moreover have "fetchExecutables
        [''/tmp/yegonesh'' \<mapsto> [\<lparr>FileName = ''emacs'', Mode = 0x49\<rparr>,
                               \<lparr>FileName = ''nano'', Mode = 0x1B6\<rparr>,
                               \<lparr>FileName = ''vim'', Mode = 0x1E4\<rparr>]] ''/tmp/yegonesh''
       = [''emacs'', ''vim'']"
    by (simp add: fetchExecutables_def ioutil_ReadDir_def)
  ultimately show ?thesis by (simp only: simp_thms)
qed

theorem C6_fetchExecutables_witness:
  "fetchExecutables Map.empty ''/nonexistent'' = []
   \<and> fetchExecutables [''/d'' \<mapsto> [\<lparr>FileName = ''b'', Mode = 0x1ED\<rparr>, \<lparr>FileName = ''a'', Mode = 0x8\<rparr>,
                                \<lparr>FileName = ''c'', Mode = 0x1A4\<rparr>]] ''/d'' = [''a'', ''b'']"
proof -
  let ?t = "[''/d'' \<mapsto> [\<lparr>FileName = ''b'', Mode = 0x1ED\<rparr>, \<lparr>FileName = ''a'', Mode = 0x8\<rparr>,
                        \<lparr>FileName = ''c'', Mode = 0x1A4\<rparr>]] :: tree"
  have "fetchExecutables Map.empty ''/nonexistent'' = []"
    using C6_fetchExecutables_execute_bit [of Map.empty "''/nonexistent''"] by simp
  moreover have "fetchExecutables ?t ''/d'' = [''a'', ''b'']"
    using C6_fetchExecutables_execute_bit [of ?t "''/d''"]
    by (simp flip: execute_bits)
  ultimately show ?thesis by (simp only: simp_thms)
qed

text \<open>
  C5. The description of the path scanner asks for the sorted concatenation of the listings
  of all directories, whichever scan completes first. \<open>scanPath\<close> does not guarantee it. Take
  two directories, \<open>/a\<close> with \<open>vim\<close> and \<open>/b\<close> with \<open>emacs\<close> and \<open>nano\<close>; the sorted
  concatenation is \<open>[emacs, nano, vim]\<close>. When the worker of \<open>/a\<close> finishes before the worker
  of \<open>/b\<close> starts, that is what is emitted. When both workers read \<open>commands\<close> before either
  stores its \<open>append\<close>, and the worker of \<open>/a\<close> stores last, the output of the complete run
  is \<open>[nano, vim]\<close>. In the runs without overlapping appends the output is always the sorted
  concatenation (\<open>scanPath_atomic\<close> below).
\<close>

theorem C5_scanPath_depends_on_schedule:
  "sort (concat (map (fetchExecutables
           [''/a'' \<mapsto> [\<lparr>FileName = ''vim'', Mode = 0x1E4\<rparr>],
            ''/b'' \<mapsto> [\<lparr>FileName = ''emacs'', Mode = 0x1E4\<rparr>, \<lparr>FileName = ''nano'', Mode = 0x1E4\<rparr>]])
         (strings_Split ''/a:/b'' (CHR '':''))))
     = [''emacs'', ''nano'', ''vim'']
   \<and> scanPath double_cap
         [''/a'' \<mapsto> [\<lparr>FileName = ''vim'', Mode = 0x1E4\<rparr>],
          ''/b'' \<mapsto> [\<lparr>FileName = ''emacs'', Mode = 0x1E4\<rparr>, \<lparr>FileName = ''nano'', Mode = 0x1E4\<rparr>]]
         ''/a:/b'' [0, 0, 1, 1, 1, 1]
     = Some [''emacs'', ''nano'', ''vim'']
   \<and> scanPath double_cap
         [''/a'' \<mapsto> [\<lparr>FileName = ''vim'', Mode = 0x1E4\<rparr>],
          ''/b'' \<mapsto> [\<lparr>FileName = ''emacs'', Mode = 0x1E4\<rparr>, \<lparr>FileName = ''nano'', Mode = 0x1E4\<rparr>]]
         ''/a:/b'' [0, 1, 1, 0, 1, 1]
     = Some [''nano'', ''vim'']"
  by (simp add: scanPath_def fetchExecutables_def ioutil_ReadDir_def step_def elements_def
        double_cap_def Let_def)

text \<open>
  C7. The aggregation of \<open>scanPath\<close> can lose an entry. With the directories \<open>/a\<close> holding
  \<open>vim\<close> and \<open>/b\<close> holding \<open>emacs\<close> and \<open>nano\<close>: both workers read the empty \<open>commands\<close>; the
  worker of \<open>/a\<close> stores \<open>[vim]\<close>, then the worker of \<open>/b\<close> stores \<open>[emacs]\<close> over it and
  appends \<open>nano\<close>. The run is complete and the output is \<open>[emacs, nano]\<close>: the entry \<open>vim\<close>,
  which \<open>fetchExecutables\<close> delivered, is not in it.
\<close>

theorem C7_scanPath_loses_entry:
  "fetchExecutables
      [''/a'' \<mapsto> [\<lparr>FileName = ''vim'', Mode = 0x1E4\<rparr>],
       ''/b'' \<mapsto> [\<lparr>FileName = ''emacs'', Mode = 0x1E4\<rparr>, \<lparr>FileName = ''nano'', Mode = 0x1E4\<rparr>]] ''/a''
     = [''vim'']
   \<and> scanPath double_cap
         [''/a'' \<mapsto> [\<lparr>FileName = ''vim'', Mode = 0x1E4\<rparr>],
          ''/b'' \<mapsto> [\<lparr>FileName = ''emacs'', Mode = 0x1E4\<rparr>, \<lparr>FileName = ''nano'', Mode = 0x1E4\<rparr>]]
         ''/a:/b'' [0, 1, 0, 1, 1, 1]
     = Some [''emacs'', ''nano'']"
  by (simp add: scanPath_def fetchExecutables_def ioutil_ReadDir_def step_def elements_def
        double_cap_def Let_def)

lemma SplitN2_at_space:
  "sep \<notin> set name \<Longrightarrow> strings_SplitN2 (name @ sep # rest) sep = [name, rest]"
proof -
  assume "sep \<notin> set name"
  then have "takeWhile (\<lambda>x. x \<noteq> sep) (name @ sep # rest) = name"
    and "dropWhile (\<lambda>x. x \<noteq> sep) (name @ sep # rest) = sep # rest"
    by (induction name) auto
  then show ?thesis by (simp add: strings_SplitN2_def)
qed

lemma SplitN2_no_space:
  "sep \<notin> set line \<Longrightarrow> strings_SplitN2 line sep = [line]"
  by (simp add: strings_SplitN2_def)

text \<open>
  C8 (as amended). \<open>launchCommand\<close> cuts the selected line at its first space character
  (U+0020, one character, not a run and no other white space): what precedes it is the
  executable name, and what follows it, when there is such a space, is the one remaining
  argument, passed on as it is. The name is resolved with \<open>exec.LookPath\<close>, and a name that
  does not resolve is fatal.
\<close>

theorem C8_launch_splits_at_first_space:
  "(CHR '' '' \<notin> set name \<longrightarrow>
      launchCommand lookPath (name @ CHR '' '' # rest) =
        (case lookPath name of
           None \<Rightarrow> Inl LookPathError
         | Some path \<Rightarrow> Inr \<lparr>Args = [path, rest]\<rparr>))
   \<and> (CHR '' '' \<notin> set line \<longrightarrow>
      launchCommand lookPath line =
        (case lookPath line of
           None \<Rightarrow> Inl LookPathError
         | Some path \<Rightarrow> Inr \<lparr>Args = [path]\<rparr>))"
  by (simp add: launchCommand_def SplitN2_at_space SplitN2_no_space)

theorem C8_launch_witness:
  "launchCommand [''echo'' \<mapsto> ''/bin/echo''] ''echo hello, world''
     = Inr \<lparr>Args = [''/bin/echo'', ''hello, world'']\<rparr>
   \<and> launchCommand [''echo'' \<mapsto> ''/bin/echo''] ''bogus_cmd'' = Inl LookPathError"
proof -
  have a: "CHR '' '' \<notin> set ''echo''" by simp
  have b: "CHR '' '' \<notin> set ''bogus_cmd''" by simp
  have "launchCommand [''echo'' \<mapsto> ''/bin/echo''] (''echo'' @ CHR '' '' # ''hello, world'')
     = Inr \<lparr>Args = [''/bin/echo'', ''hello, world'']\<rparr>"
    using C8_launch_splits_at_first_space
      [where name = "''echo''" and lookPath = "[''echo'' \<mapsto> ''/bin/echo'']"] a by simp
  moreover have "launchCommand [''echo'' \<mapsto> ''/bin/echo''] ''bogus_cmd'' = Inl LookPathError"
    using C8_launch_splits_at_first_space
      [where line = "''bogus_cmd''" and lookPath = "[''echo'' \<mapsto> ''/bin/echo'']"] b by simp
  ultimately show ?thesis by simp
qed

text \<open>
  Two spaces, and a tab: the run of white space is not consumed, and a tab does not end the
  name.
\<close>

theorem C8_launch_counterexample:
  "launchCommand [''echo'' \<mapsto> ''/bin/echo''] ''echo  hi'' = Inr \<lparr>Args = [''/bin/echo'', '' hi'']\<rparr>
   \<and> claimed_split ''echo  hi'' = (''echo'', ''hi'')
   \<and> launchCommand [''echo'' \<mapsto> ''/bin/echo''] (''echo'' @ [CHR 0x09] @ ''hi'') = Inl LookPathError
   \<and> claimed_split (''echo'' @ [CHR 0x09] @ ''hi'') = (''echo'', ''hi'')"
  by (simp add: launchCommand_def strings_SplitN2_def claimed_split_def asciiSpace_def)

section \<open>scanPath when the appends do not overlap\<close>

lemma run_append:
  "run grow (xs @ ys) s = (case run grow xs s of None \<Rightarrow> None | Some s' \<Rightarrow> run grow ys s')"
  by (induction xs arbitrary: s) (auto split: option.splits)

lemma pending_update:
  assumes "i < length ws" and "pending (ws ! i) = item # rest" and "pending w' = rest"
  shows "mset (concat (map pending (ws[i := w']))) + {#item#} = mset (concat (map pending ws))"
proof -
  have "ws = take i ws @ ws ! i # drop (Suc i) ws"
    using assms(1) by (rule id_take_nth_drop)
  then have "mset (concat (map pending ws)) =
      mset (concat (map pending (take i ws))) + mset (pending (ws ! i))
      + mset (concat (map pending (drop (Suc i) ws)))"
    by (metis (no_types, lifting) concat.simps(2) concat_append list.simps(9) map_append
        mset_append add.assoc)
  moreover have "ws[i := w'] = take i ws @ w' # drop (Suc i) ws"
    using assms(1) by (rule upd_conv_take_nth_drop)
  then have "mset (concat (map pending (ws[i := w']))) =
      mset (concat (map pending (take i ws))) + mset (pending w')
      + mset (concat (map pending (drop (Suc i) ws)))"
    by (simp add: add.assoc)
  ultimately show ?thesis using assms(2,3) by simp
qed

text \<open>A worker that still has an item can always take its next step: no worker blocks.\<close>

lemma step_enabled:
  "i < length (workers s) \<Longrightarrow> pending (workers s ! i) \<noteq> [] \<Longrightarrow> \<exists>s'. step grow i s = Some s'"
  by (cases "pending (workers s ! i)"; cases "loaded (workers s ! i)") (auto simp: step_def)

lemma step_SomeD:
  "step grow i s = Some s' \<Longrightarrow> i < length (workers s) \<and> pending (workers s ! i) \<noteq> []"
  by (cases "pending (workers s ! i)") (auto simp: step_def split: if_splits)

lemma atomic_append:
  assumes "settled s" and "\<forall>c. c < grow c" and "run grow [i, i] s = Some s'"
  shows "settled s' \<and>
         mset (elements s') + mset (concat (map pending (workers s')))
           = mset (elements s) + mset (concat (map pending (workers s)))"
proof -
  from assms(3) obtain s0 where first: "step grow i s = Some s0"
    and second: "step grow i s0 = Some s'"
    by (auto split: option.splits)
  from step_SomeD [OF first] have i: "i < length (workers s)"
    and "pending (workers s ! i) \<noteq> []" by simp_all
  then obtain item rest where p: "pending (workers s ! i) = item # rest"
    by (cases "pending (workers s ! i)") auto
  from assms(1) i have ld: "loaded (workers s ! i) = None"
    by (simp add: settled_def list_all_length)
  let ?h = "shared s"
  let ?a = "arrays s ! sl_array ?h"
  let ?s1 = "s\<lparr>workers := (workers s)[i := \<lparr>pending = item # rest, loaded = Some ?h\<rparr>]\<rparr>"
  let ?ws = "(workers s)[i := \<lparr>pending = rest, loaded = None\<rparr>]"
  have "step grow i s = Some ?s1"
    using i ld p by (simp add: step_def)
  with first have s0: "s0 = ?s1" by simp
  from assms(1) have wf: "sl_array ?h < length (arrays s)" "sl_len ?h \<le> sl_cap ?h"
    "length ?a = sl_cap ?h" "list_all (\<lambda>w. loaded w = None) (workers s)"
    by (simp_all add: settled_def)
  have wl: "list_all (\<lambda>w. loaded w = None) ?ws"
    using wf(4) by (auto simp: list_all_iff dest: set_update_subset_insert [THEN subsetD])
  have pd: "mset (concat (map pending ?ws)) + {#item#} = mset (concat (map pending (workers s)))"
    using pending_update [OF i p, of "\<lparr>pending = rest, loaded = None\<rparr>"] by simp
  show ?thesis
  proof (cases "sl_len ?h < sl_cap ?h")
    case True
    let ?s2 = "s\<lparr>arrays := (arrays s)[sl_array ?h := ?a[sl_len ?h := item]],
                  shared := ?h\<lparr>sl_len := sl_len ?h + 1\<rparr>,
                  workers := ?ws\<rparr>"
    have "step grow i ?s1 = Some ?s2"
      using i True by (simp add: step_def)
    with second have s': "s' = ?s2" unfolding s0 by simp
    have el: "elements s' = elements s @ [item]"
      using True wf by (simp add: s' elements_def take_Suc_conv_app_nth)
    have "settled s'"
      using True wf wl by (simp add: s' settled_def)
    with el pd show ?thesis by (simp add: s' flip: pd)
  next
    case False
    with wf have full: "sl_len ?h = sl_cap ?h" by simp
    let ?new = "take (sl_len ?h) ?a @ [item] @ replicate (grow (sl_cap ?h) - sl_len ?h - 1) []"
    let ?s2 = "s\<lparr>arrays := arrays s @ [?new],
                  shared := \<lparr>sl_array = length (arrays s), sl_len = sl_len ?h + 1,
                             sl_cap = grow (sl_cap ?h)\<rparr>,
                  workers := ?ws\<rparr>"
    have "step grow i ?s1 = Some ?s2"
      using i False by (simp add: step_def)
    with second have s': "s' = ?s2" unfolding s0 by simp
    from assms(2) have g: "sl_cap ?h < grow (sl_cap ?h)" by simp
    have el: "elements s' = elements s @ [item]"
      using wf full by (simp add: s' elements_def)
    have "settled s'"
      using wf full g wl by (simp add: s' settled_def)
    with el pd show ?thesis by (simp add: s' flip: pd)
  qed
qed

lemma atomic_run:
  assumes "\<forall>c. c < grow c"
  shows "settled s \<Longrightarrow> run grow (atomic_schedule order) s = Some s' \<Longrightarrow>
         settled s' \<and>
         mset (elements s') + mset (concat (map pending (workers s')))
           = mset (elements s) + mset (concat (map pending (workers s)))"
proof (induction order arbitrary: s)
  case Nil
  then show ?case by (simp add: atomic_schedule_def)
next
  case (Cons i order)
  have sch: "atomic_schedule (i # order) = [i, i] @ atomic_schedule order"
    by (simp add: atomic_schedule_def)
  from Cons.prems(2) obtain s1 where s1: "run grow [i, i] s = Some s1"
    and rest: "run grow (atomic_schedule order) s1 = Some s'"
    unfolding sch run_append by (auto split: option.splits)
  from atomic_append [OF Cons.prems(1) assms s1] Cons.IH [OF _ rest]
  show ?case by simp
qed

lemma sort_mset_eq: "mset xs = mset ys \<Longrightarrow> sort xs = sort ys"
  for xs ys :: "string list"
  by (metis properties_for_sort mset_sort sorted_sort)

lemma scanPath_atomic:
  assumes "\<forall>c. c < grow c"
    and "scanPath grow t path (atomic_schedule order) = Some out"
  shows "out = sort (concat (map (fetchExecutables t) (strings_Split path (CHR '':''))))"
proof -
  let ?dirs = "strings_Split path (CHR '':'')"
  let ?start = "\<lparr>arrays = [[]], shared = \<lparr>sl_array = 0, sl_len = 0, sl_cap = 0\<rparr>,
                 workers = map (\<lambda>dir. \<lparr>pending = fetchExecutables t dir, loaded = None\<rparr>) ?dirs\<rparr>"
  from assms(2) obtain s where r: "run grow (atomic_schedule order) ?start = Some s"
    and fin: "list_all (\<lambda>w. pending w = []) (workers s)"
    and out: "out = sort (elements s)"
    by (auto simp: scanPath_def Let_def split: option.splits if_splits)
  have st: "settled ?start"
    by (simp add: settled_def list_all_iff)
  have "concat (map pending (workers s)) = []"
    using fin by (simp add: list_all_iff)
  with atomic_run [OF assms(1) st r]
  have "mset (elements s) = mset (concat (map (fetchExecutables t) ?dirs))"
    by (simp add: elements_def comp_def)
  then show ?thesis
    unfolding out by (rule sort_mset_eq)
qed

end
